theory Spec2Isabelle
  imports Main "HOL-Library.Log_Nat" "HOL-Library.Monad_Syntax"
begin

section \<open>JavaScript numbers\<close>

text \<open>
  A finite JavaScript Number is an IEEE 754 binary64 value, embedded here as the rational
  it denotes. Every arithmetic operator of the source computes the exact rational result
  and rounds it to the nearest value with a 53-bit significand, ties to even (\<open>fl64\<close>).
  The exponent range of binary64 is not modelled: \<open>fl64\<close> agrees with the hardware
  rounding whenever the rounded magnitude is zero or lies in [2^-1022, 2^1024), which
  covers every intermediate value of the colour conversions on channel values.
  A division whose divisor is zero gives Infinity or NaN in JavaScript; that non-finite
  outcome is the value \<open>None\<close>.
\<close>

type_synonym number = rat

definition ilog2 :: "rat \<Rightarrow> int" where
  \<comment> \<open>for positive x, the integer e with 2^e <= x < 2^(e+1)\<close>
  "ilog2 x = (if 1 \<le> x then int (floorlog 2 (nat \<lfloor>x\<rfloor>)) - 1
              else - int (floorlog 2 (nat (\<lceil>1 / x\<rceil> - 1))))"

definition rne :: "rat \<Rightarrow> int" where
  \<comment> \<open>round to the nearest integer, ties to the even one\<close>
  "rne q = (let f = \<lfloor>q\<rfloor>; r = q - of_int f
            in if r < 1 / 2 then f else if 1 / 2 < r then f + 1
               else if even f then f else f + 1)"

definition fl64 :: "rat \<Rightarrow> number" where
  "fl64 x = (if x = 0 then 0
             else let u = 2 powi (ilog2 \<bar>x\<bar> - 52)
                  in sgn x * of_int (rne (\<bar>x\<bar> / u)) * u)"

definition representable :: "rat \<Rightarrow> bool" where
  "representable x \<longleftrightarrow> fl64 x = x"

definition num_add :: "number \<Rightarrow> number \<Rightarrow> number" where
  "num_add x y = fl64 (x + y)"

definition num_sub :: "number \<Rightarrow> number \<Rightarrow> number" where
  "num_sub x y = fl64 (x - y)"

definition num_mul :: "number \<Rightarrow> number \<Rightarrow> number" where
  "num_mul x y = fl64 (x * y)"

definition num_div :: "number \<Rightarrow> number \<Rightarrow> number option" where
  "num_div x y = (if y = 0 then None else Some (fl64 (x / y)))"

definition Math_max :: "number \<Rightarrow> number \<Rightarrow> number \<Rightarrow> number" where
  "Math_max x y z = max (max x y) z"

definition Math_min :: "number \<Rightarrow> number \<Rightarrow> number \<Rightarrow> number" where
  "Math_min x y z = min (min x y) z"

definition Math_floor :: "number \<Rightarrow> int" where
  "Math_floor x = \<lfloor>x\<rfloor>"

definition Math_round :: "number \<Rightarrow> int" where
  \<comment> \<open>the nearest integer, a tie going towards plus infinity\<close>
  "Math_round x = \<lfloor>x + 1 / 2\<rfloor>"

section \<open>Number to string\<close>

definition digitChar :: "nat \<Rightarrow> char" where
  "digitChar d = (if d < 36 then ''0123456789abcdefghijklmnopqrstuvwxyz'' ! d else CHR ''?'')"

function toDigits :: "nat \<Rightarrow> nat \<Rightarrow> string" where
  \<comment> \<open>the digits of n in the given radix, most significant first; the program uses the
      radices 10 and 16 only (JavaScript rejects a radix outside 2 to 36)\<close>
  "toDigits radix n =
     (if n < radix \<or> radix < 2 then [digitChar n]
      else toDigits radix (n div radix) @ [digitChar (n mod radix)])"
  by pat_completeness auto
termination
  by (relation "measure snd") auto

declare toDigits.simps [simp del]

definition Number_toString :: "nat \<Rightarrow> int \<Rightarrow> string" where
  \<comment> \<open>n.toString(radix) of an integer-valued Number below 10^21 in magnitude; the
      radix-10 case is what a template literal prints\<close>
  "Number_toString radix n =
     (if n < 0 then ''-'' @ toDigits radix (nat (- n)) else toDigits radix (nat n))"

definition padStart :: "nat \<Rightarrow> string \<Rightarrow> string \<Rightarrow> string" where
  "padStart targetLength padString s =
     (if targetLength \<le> length s \<or> padString = [] then s
      else take (targetLength - length s)
             (concat (replicate (targetLength - length s) padString)) @ s)"

section \<open>The colour functions of server.ts\<close>

text \<open>
  The arguments r, g and b of the formatters are integer-valued Numbers, embedded as
  \<open>int\<close>. The body of rgbToHsl is split at its return statement: \<open>hslUnit\<close> is
  everything before it, \<open>hslScaled\<close> the three rounded products and \<open>hslString\<close> the
  template literal.
\<close>

definition channel :: "int \<Rightarrow> bool" where
  \<comment> \<open>a channel value: an integer from 0 to 255\<close>
  "channel n \<longleftrightarrow> 0 \<le> n \<and> n \<le> 255"

definition random_value :: "number \<Rightarrow> bool" where
  \<comment> \<open>a value Math.random() can return: a binary64 value u with 0 <= u < 1\<close>
  "random_value u \<longleftrightarrow> representable u \<and> 0 \<le> u \<and> u < 1"

definition randomRGB :: "number \<Rightarrow> int" where
  \<comment> \<open>the argument is the value returned by Math.random()\<close>
  "randomRGB u = Math_floor (num_mul u 256)"

definition toHex :: "int \<Rightarrow> string" where
  "toHex n = padStart 2 ''0'' (Number_toString 16 n)"

definition rgbToHex :: "int \<Rightarrow> int \<Rightarrow> int \<Rightarrow> string" where
  "rgbToHex r g b = ''#'' @ toHex r @ toHex g @ toHex b"

definition saturation :: "number \<Rightarrow> number \<Rightarrow> number \<Rightarrow> number \<Rightarrow> number option" where
  \<comment> \<open>line 131: s = l > 0.5 ? d / (2 - max - min) : d / (max + min)\<close>
  "saturation l d mx mn =
     (if 1 / 2 < l then num_div d (num_sub (num_sub 2 mx) mn)
      else num_div d (num_add mx mn))"

definition hueTurn :: "number \<Rightarrow> number \<Rightarrow> number \<Rightarrow> number \<Rightarrow> number \<Rightarrow> number option" where
  \<comment> \<open>lines 134 to 136: the hue as a fraction of a full turn\<close>
  "hueTurn r g b mx d =
     (if mx = r then do {
        q \<leftarrow> num_div (num_sub g b) d;
        num_div (num_add q (if g < b then 6 else 0)) 6 }
      else if mx = g then do {
        q \<leftarrow> num_div (num_sub b r) d;
        num_div (num_add q 2) 6 }
      else do {
        q \<leftarrow> num_div (num_sub r g) d;
        num_div (num_add q 4) 6 })"

definition hslUnit :: "int \<Rightarrow> int \<Rightarrow> int \<Rightarrow> (number \<times> number \<times> number) option" where
  \<comment> \<open>lines 107 to 137 of rgbToHsl: the values of h, s and l before the final scaling\<close>
  "hslUnit r0 g0 b0 = do {
     r \<leftarrow> num_div (of_int r0) 255;
     g \<leftarrow> num_div (of_int g0) 255;
     b \<leftarrow> num_div (of_int b0) 255;
     let mx = Math_max r g b;
     let mn = Math_min r g b;
     l \<leftarrow> num_div (num_add mx mn) 2;
     if mx \<noteq> mn then do {
       let d = num_sub mx mn;
       s \<leftarrow> saturation l d mx mn;
       h \<leftarrow> hueTurn r g b mx d;
       Some (h, s, l) }
     else Some (0, 0, l) }"

definition hslScaled :: "int \<Rightarrow> int \<Rightarrow> int \<Rightarrow> (int \<times> int \<times> int) option" where
  \<comment> \<open>the three integers printed by the template literal of lines 143 to 145\<close>
  "hslScaled r g b =
     map_option (\<lambda>(h, s, l). (Math_round (num_mul h 360), Math_round (num_mul s 100),
                              Math_round (num_mul l 100)))
       (hslUnit r g b)"

definition hslString :: "int \<times> int \<times> int \<Rightarrow> string" where
  "hslString = (\<lambda>(H, S, L). ''hsl('' @ Number_toString 10 H @ '', '' @ Number_toString 10 S
                  @ ''%, '' @ Number_toString 10 L @ ''%)'')"

definition rgbToHsl :: "int \<Rightarrow> int \<Rightarrow> int \<Rightarrow> string option" where
  "rgbToHsl r g b = map_option hslString (hslScaled r g b)"

definition rgbString :: "int \<Rightarrow> int \<Rightarrow> int \<Rightarrow> string" where
  "rgbString r g b = ''rgb('' @ Number_toString 10 r @ '', '' @ Number_toString 10 g
                       @ '', '' @ Number_toString 10 b @ '')''"

record color_response =
  hex :: string
  rgb :: string
  hsl :: string

definition randomColor :: "number \<Rightarrow> number \<Rightarrow> number \<Rightarrow> color_response option" where
  \<comment> \<open>the handler of GET /api/color/random, given the three values drawn from Math.random()\<close>
  "randomColor u1 u2 u3 =
     (let r = randomRGB u1; g = randomRGB u2; b = randomRGB u3
      in map_option (\<lambda>x. \<lparr>hex = rgbToHex r g b, rgb = rgbString r g b, hsl = x\<rparr>)
           (rgbToHsl r g b))"

section \<open>The reference algorithm of the specification\<close>

text \<open>
  Section 4.3 of the specification gives the conversion as seven numbered steps. The
  following definition follows those steps word for word, in the same arithmetic, so that
  the source function can be compared with it.
\<close>

definition round_half_away :: "number \<Rightarrow> int" where
  "round_half_away x = (if 0 \<le> x then \<lfloor>x + 1 / 2\<rfloor> else \<lceil>x - 1 / 2\<rceil>)"

definition spec_rgbToHsl :: "int \<Rightarrow> int \<Rightarrow> int \<Rightarrow> string option" where
  "spec_rgbToHsl r g b = do {
     r' \<leftarrow> num_div (of_int r) 255;
     g' \<leftarrow> num_div (of_int g) 255;
     b' \<leftarrow> num_div (of_int b) 255;
     let mx = Math_max r' g' b';
     let mn = Math_min r' g' b';
     lightness \<leftarrow> num_div (num_add mx mn) 2;
     (turn, sat) \<leftarrow>
       (if mx = mn then Some (0, 0)
        else do {
          let d = num_sub mx mn;
          sat \<leftarrow> (if lightness \<le> 1 / 2 then num_div d (num_add mx mn)
                   else num_div d (num_sub (num_sub 2 mx) mn));
          turn \<leftarrow> (if mx = r' then do {
                      q \<leftarrow> num_div (num_sub g' b') d;
                      num_div (num_add q (if g' < b' then 6 else 0)) 6 }
                    else if mx = g' then do {
                      q \<leftarrow> num_div (num_sub b' r') d;
                      num_div (num_add q 2) 6 }
                    else do {
                      q \<leftarrow> num_div (num_sub r' g') d;
                      num_div (num_add q 4) 6 });
          Some (turn, sat) });
     let H = round_half_away (num_mul turn 360);
     let S = round_half_away (num_mul sat 100);
     let L2 = round_half_away (num_mul lightness 100);
     Some (''hsl('' @ Number_toString 10 H @ '', '' @ Number_toString 10 S @ ''%, ''
             @ Number_toString 10 L2 @ ''%)'') }"

section \<open>Reading a hex colour back\<close>

definition hexValue :: "char \<Rightarrow> nat option" where
  "hexValue c = map_of (zip ''0123456789abcdef'' [0 ..< 16]) c"

definition parseHexInt :: "string \<Rightarrow> nat option" where
  \<comment> \<open>the base-16 reading of a non-empty string of lowercase hexadecimal digits\<close>
  "parseHexInt s =
     (if s = [] then None
      else fold (\<lambda>c acc. do { a \<leftarrow> acc; v \<leftarrow> hexValue c; Some (16 * a + v) }) s (Some 0))"

definition decodeHex :: "string \<Rightarrow> (int \<times> int \<times> int) option" where
  \<comment> \<open>drop the leading #, split the rest into three pairs, read each pair in base 16\<close>
  "decodeHex s =
     (case s of
        [] \<Rightarrow> None
      | c # cs \<Rightarrow>
          if c = CHR ''#'' \<and> length cs = 6 then do {
            r \<leftarrow> parseHexInt (take 2 cs);
            g \<leftarrow> parseHexInt (take 2 (drop 2 cs));
            b \<leftarrow> parseHexInt (drop 4 cs);
            Some (int r, int g, int b) }
          else None)"

section \<open>Reading an rgb string back\<close>

definition isDecDigit :: "char \<Rightarrow> bool" where
  "isDecDigit c \<longleftrightarrow> c \<in> set ''0123456789''"

definition decValue :: "char \<Rightarrow> nat option" where
  "decValue c = map_of (zip ''0123456789'' [0 ..< 10]) c"

definition parseDecInt :: "string \<Rightarrow> nat option" where
  \<comment> \<open>the base-10 reading of a non-empty string of decimal digits\<close>
  "parseDecInt s =
     (if s = [] then None
      else fold (\<lambda>c acc. do { a \<leftarrow> acc; v \<leftarrow> decValue c; Some (10 * a + v) }) s (Some 0))"

definition decodeRgb :: "string \<Rightarrow> (int \<times> int \<times> int) option" where
  \<comment> \<open>read a string of the form rgb(R, G, B): the prefix, three runs of decimal digits
      separated by a comma and a space, and the closing parenthesis\<close>
  "decodeRgb s =
     (if take 4 s = ''rgb('' then
        let s1 = drop 4 s;
            r = takeWhile isDecDigit s1; s2 = dropWhile isDecDigit s1
        in if take 2 s2 = '', '' then
             let s3 = drop 2 s2;
                 g = takeWhile isDecDigit s3; s4 = dropWhile isDecDigit s3
             in if take 2 s4 = '', '' then
                  let s5 = drop 2 s4;
                      b = takeWhile isDecDigit s5; s6 = dropWhile isDecDigit s5
                  in if s6 = '')'' then do {
                       r' \<leftarrow> parseDecInt r;
                       g' \<leftarrow> parseDecInt g;
                       b' \<leftarrow> parseDecInt b;
                       Some (int r', int g', int b') }
                     else None
                else None
           else None
      else None)"

section \<open>Properties of the rounding function\<close>

text \<open>
  The exponent found by \<open>ilog2\<close> brackets its argument, from which \<open>fl64\<close> is
  monotone, odd, idempotent, exact on integers below 2^53 and on scaling by a power of
  two, and has relative error at most 2^-53.
\<close>

lemma ilog2_bounds:
  assumes "0 < x"
  shows "2 powi (ilog2 x) \<le> x \<and> x < 2 powi (ilog2 x + 1)"
proof (cases "1 \<le> x")
  case True
  define n where "n = nat \<lfloor>x\<rfloor>"
  define k where "k = floorlog 2 n"
  have n1: "0 < n" using True by (simp add: n_def)
  have b: "2 ^ (k - 1) \<le> n" "n < 2 ^ k"
    using floorlog_bounds [of n 2] n1 by (simp_all add: k_def)
  have k1: "1 \<le> k" using n1 by (simp add: k_def floorlog_def)
  have e: "ilog2 x = int k - 1" using True by (simp add: ilog2_def n_def k_def)
  have nx: "rat_of_nat n \<le> x" "x < rat_of_nat n + 1"
    using True by (simp_all add: n_def) linarith+
  have p1: "(2::rat) powi (int k - 1) = 2 ^ (k - 1)"
    using k1 by (simp add: power_int_def nat_diff_distrib)
  have p2: "(2::rat) powi (int k - 1 + 1) = 2 ^ k"
    by simp
  have "(2::rat) ^ (k - 1) \<le> rat_of_nat n"
    using b(1) by (metis of_nat_le_iff of_nat_numeral of_nat_power)
  moreover have "rat_of_nat n + 1 \<le> 2 ^ k"
  proof -
    have "n + 1 \<le> 2 ^ k" using b(2) by simp
    then have "rat_of_nat (n + 1) \<le> rat_of_nat (2 ^ k)" by (simp only: of_nat_le_iff)
    then show ?thesis by simp
  qed
  ultimately show ?thesis using nx unfolding e p1 p2 by linarith
next
  case False
  then have x1: "x < 1" by simp
  define c where "c = \<lceil>1 / x\<rceil>"
  define n where "n = nat (c - 1)"
  define k where "k = floorlog 2 n"
  have ix: "1 < 1 / x" using assms x1 by (simp add: field_simps)
  have c2: "2 \<le> c" using ix unfolding c_def by linarith
  have n1: "0 < n" using c2 by (simp add: n_def)
  have cb: "rat_of_int c - 1 < 1 / x" "1 / x \<le> rat_of_int c"
    unfolding c_def by linarith+
  have nc: "rat_of_nat n = rat_of_int c - 1" using c2 by (simp add: n_def)
  have b: "2 ^ (k - 1) \<le> n" "n < 2 ^ k"
    using floorlog_bounds [of n 2] n1 by (simp_all add: k_def)
  have k1: "1 \<le> k" using n1 by (simp add: k_def floorlog_def)
  have e: "ilog2 x = - int k" using False by (simp add: ilog2_def n_def k_def c_def)
  have q1: "(2::rat) ^ (k - 1) \<le> rat_of_nat n"
    using b(1) by (metis of_nat_le_iff of_nat_numeral of_nat_power)
  have q2: "rat_of_nat n + 1 \<le> 2 ^ k"
  proof -
    have "n + 1 \<le> 2 ^ k" using b(2) by simp
    then have "rat_of_nat (n + 1) \<le> rat_of_nat (2 ^ k)" by (simp only: of_nat_le_iff)
    then show ?thesis by simp
  qed
  have p1: "(2::rat) powi (- int k) = 1 / 2 ^ k"
    by (simp add: power_int_minus_divide)
  have p2: "(2::rat) powi (- int k + 1) = 1 / 2 ^ (k - 1)"
  proof -
    have "- int k + 1 = - int (k - 1)" using k1 by simp
    then show ?thesis by (simp only: power_int_minus_divide power_int_of_nat)
  qed
  have u: "1 / x \<le> 2 ^ k" using cb nc q2 by linarith
  have l: "2 ^ (k - 1) < 1 / x" using cb nc q1 by linarith
  have "1 / 2 ^ k \<le> x"
    using u assms by (simp add: field_simps)
  moreover have "x < 1 / 2 ^ (k - 1)"
    using l assms by (simp add: field_simps)
  ultimately show ?thesis unfolding e p1 p2 by simp
qed

lemma ilog2_unique:
  assumes "0 < x" "2 powi e \<le> x" "x < 2 powi (e + 1)"
  shows "ilog2 x = e"
proof -
  have b: "2 powi (ilog2 x) \<le> x" "x < 2 powi (ilog2 x + 1)"
    using ilog2_bounds [OF assms(1)] by simp_all
  have "(2::rat) powi e < 2 powi (ilog2 x + 1)" using assms(2) b(2) by linarith
  then have 1: "e < ilog2 x + 1"
    by (metis linorder_not_less power_int_increasing one_le_numeral)
  have "(2::rat) powi (ilog2 x) < 2 powi (e + 1)" using assms(3) b(1) by linarith
  then have 2: "ilog2 x < e + 1"
    by (metis linorder_not_less power_int_increasing one_le_numeral)
  show ?thesis using 1 2 by simp
qed

lemma rne_err: "\<bar>rat_of_int (rne q) - q\<bar> \<le> 1 / 2"
proof -
  have f: "rat_of_int \<lfloor>q\<rfloor> \<le> q" "q < rat_of_int \<lfloor>q\<rfloor> + 1" by linarith+
  show ?thesis
    unfolding rne_def Let_def using f by (simp split: if_splits)
qed

lemma rne_of_int [simp]: "rne (of_int n) = n"
  by (simp add: rne_def)

lemma rne_mono:
  assumes "q \<le> q'"
  shows "rne q \<le> rne q'"
proof (rule ccontr)
  assume "\<not> rne q \<le> rne q'"
  then have lt: "rne q' + 1 \<le> rne q" by simp
  then have lt': "rat_of_int (rne q') + 1 \<le> rat_of_int (rne q)"
    by (metis of_int_1 of_int_add of_int_le_iff)
  have a: "rat_of_int (rne q) - 1 / 2 \<le> q" using rne_err [of q] by linarith
  have b: "q' \<le> rat_of_int (rne q') + 1 / 2" using rne_err [of q'] by linarith
  have "q = q'" using a b lt' assms by linarith
  then show False using \<open>\<not> rne q \<le> rne q'\<close> by simp
qed

lemma fl64_0 [simp]: "fl64 0 = 0"
  by (simp add: fl64_def)

lemma fl64_neg: "fl64 (- x) = - fl64 x"
  by (simp add: fl64_def Let_def)

lemma fl64_pos_eq:
  "0 < x \<Longrightarrow> fl64 x = of_int (rne (x / 2 powi (ilog2 x - 52))) * 2 powi (ilog2 x - 52)"
  by (simp add: fl64_def Let_def)

lemma scaled_bounds:
  assumes "0 < x"
  shows "2 ^ 52 \<le> x / 2 powi (ilog2 x - 52)" "x / 2 powi (ilog2 x - 52) < 2 ^ 53"
proof -
  have u: "(0::rat) < 2 powi (ilog2 x - 52)" by simp
  have b: "2 powi (ilog2 x) \<le> x" "x < 2 powi (ilog2 x + 1)"
    using ilog2_bounds [OF assms] by simp_all
  have e1: "(2::rat) powi (ilog2 x) = 2 ^ 52 * 2 powi (ilog2 x - 52)"
    using power_int_add [of "2::rat" 52 "ilog2 x - 52"] by simp
  have e2: "(2::rat) powi (ilog2 x + 1) = 2 ^ 53 * 2 powi (ilog2 x - 52)"
    using power_int_add [of "2::rat" 53 "ilog2 x - 52"] by (simp add: add.commute)
  show "2 ^ 52 \<le> x / 2 powi (ilog2 x - 52)"
    using b(1) u unfolding e1 by (simp add: pos_le_divide_eq)
  show "x / 2 powi (ilog2 x - 52) < 2 ^ 53"
    using b(2) u unfolding e2 by (simp add: pos_divide_less_eq)
qed

lemma mant_bounds:
  assumes "0 < x"
  shows "2 ^ 52 \<le> rne (x / 2 powi (ilog2 x - 52))" "rne (x / 2 powi (ilog2 x - 52)) \<le> 2 ^ 53"
proof -
  have "rne (of_int (2 ^ 52)) \<le> rne (x / 2 powi (ilog2 x - 52))"
    by (rule rne_mono) (use scaled_bounds(1) [OF assms] in simp)
  then show "2 ^ 52 \<le> rne (x / 2 powi (ilog2 x - 52))" by (simp only: rne_of_int)
  have "rne (x / 2 powi (ilog2 x - 52)) \<le> rne (of_int (2 ^ 53))"
    by (rule rne_mono) (use scaled_bounds(2) [OF assms] in simp)
  then show "rne (x / 2 powi (ilog2 x - 52)) \<le> 2 ^ 53" by (simp only: rne_of_int)
qed

lemma fl64_pos_bounds:
  assumes "0 < x"
  shows "2 powi (ilog2 x) \<le> fl64 x" "fl64 x \<le> 2 powi (ilog2 x + 1)"
proof -
  let ?u = "(2::rat) powi (ilog2 x - 52)"
  let ?m = "rne (x / ?u)"
  have u: "0 < ?u" by simp
  have e1: "(2::rat) powi (ilog2 x) = 2 ^ 52 * ?u"
    using power_int_add [of "2::rat" 52 "ilog2 x - 52"] by simp
  have e2: "(2::rat) powi (ilog2 x + 1) = 2 ^ 53 * ?u"
    using power_int_add [of "2::rat" 53 "ilog2 x - 52"] by (simp add: add.commute)
  have m1: "(2::rat) ^ 52 \<le> of_int ?m"
    using mant_bounds(1) [OF assms] by (metis of_int_le_iff of_int_numeral of_int_power)
  have m2: "rat_of_int ?m \<le> 2 ^ 53"
    using mant_bounds(2) [OF assms] by (metis of_int_le_iff of_int_numeral of_int_power)
  show "2 powi (ilog2 x) \<le> fl64 x"
    unfolding fl64_pos_eq [OF assms] e1 using m1 u by (simp only: mult_le_cancel_right_pos)
  show "fl64 x \<le> 2 powi (ilog2 x + 1)"
    unfolding fl64_pos_eq [OF assms] e2 using m2 u by (simp only: mult_le_cancel_right_pos)
qed

lemma fl64_pos: "0 < x \<Longrightarrow> 0 < fl64 x"
  using fl64_pos_bounds(1) [of x] zero_less_power_int [of "2::rat" "ilog2 x"]
  by linarith

lemma fl64_mono_pos:
  assumes "0 < x" "x \<le> y"
  shows "fl64 x \<le> fl64 y"
proof -
  have y: "0 < y" using assms by simp
  have bx: "2 powi (ilog2 x) \<le> x" using ilog2_bounds [OF assms(1)] by simp
  have by': "y < 2 powi (ilog2 y + 1)" using ilog2_bounds [OF y] by simp
  have "(2::rat) powi (ilog2 x) < 2 powi (ilog2 y + 1)" using bx by' assms(2) by linarith
  then have le: "ilog2 x \<le> ilog2 y"
    by (metis linorder_not_less power_int_increasing one_le_numeral zless_add1_eq
        order_less_le)
  show ?thesis
  proof (cases "ilog2 x = ilog2 y")
    case True
    let ?u = "(2::rat) powi (ilog2 y - 52)"
    have u: "0 < ?u" by simp
    have "x / ?u \<le> y / ?u" using assms(2) u by (simp add: divide_right_mono)
    then have "rne (x / ?u) \<le> rne (y / ?u)" by (rule rne_mono)
    then have "rat_of_int (rne (x / ?u)) \<le> rat_of_int (rne (y / ?u))" by simp
    then show ?thesis
      unfolding fl64_pos_eq [OF assms(1)] fl64_pos_eq [OF y] True
      using u by (simp only: mult_le_cancel_right_pos)
  next
    case False
    then have "ilog2 x + 1 \<le> ilog2 y" using le by simp
    then have "(2::rat) powi (ilog2 x + 1) \<le> 2 powi (ilog2 y)"
      by (intro power_int_increasing) simp_all
    then show ?thesis
      using fl64_pos_bounds(2) [OF assms(1)] fl64_pos_bounds(1) [OF y] by linarith
  qed
qed

lemma fl64_mono:
  assumes "x \<le> y"
  shows "fl64 x \<le> fl64 y"
proof -
  consider "0 < x" | "x \<le> 0" "0 \<le> y" | "y < 0" by linarith
  then show ?thesis
  proof cases
    case 1
    then show ?thesis using fl64_mono_pos assms by simp
  next
    case 2
    have "fl64 x \<le> 0"
    proof (cases "x = 0")
      case False
      then have "0 < - x" using 2 by simp
      then have "0 < fl64 (- x)" by (rule fl64_pos)
      then show ?thesis by (simp add: fl64_neg)
    qed simp
    moreover have "0 \<le> fl64 y"
    proof (cases "y = 0")
      case False
      then have "0 < y" using 2 by simp
      then have "0 < fl64 y" by (rule fl64_pos)
      then show ?thesis by simp
    qed simp
    ultimately show ?thesis by simp
  next
    case 3
    then have "0 < - y" "- y \<le> - x" using assms by simp_all
    then have "fl64 (- y) \<le> fl64 (- x)" by (rule fl64_mono_pos)
    then show ?thesis by (simp add: fl64_neg)
  qed
qed

lemma fl64_exact_pos:
  assumes k: "0 < k" "k < 2 ^ 53" and x: "x = rat_of_int k * 2 powi j"
  shows "fl64 x = x"
proof -
  let ?e = "ilog2 x"
  let ?u = "(2::rat) powi (?e - 52)"
  have kr: "0 < rat_of_int k" "rat_of_int k < 2 ^ 53"
    using k by (simp, metis of_int_less_iff of_int_numeral of_int_power)
  have xpos: "0 < x" unfolding x using kr by simp
  have "x < 2 ^ 53 * 2 powi j" unfolding x using kr by simp
  also have "\<dots> = 2 powi (j + 53)"
    using power_int_add [of "2::rat" 53 j] by (simp add: add.commute)
  finally have "(2::rat) powi ?e < 2 powi (j + 53)"
    using ilog2_bounds [OF xpos] by linarith
  then have "?e < j + 53"
    by (metis linorder_not_less power_int_increasing one_le_numeral)
  then have t: "0 \<le> j - ?e + 52" by simp
  define t where "t = nat (j - ?e + 52)"
  have "x / ?u = rat_of_int k * (2 powi j / ?u)" unfolding x by simp
  also have "2 powi j / ?u = (2::rat) powi (j - (?e - 52))"
    by (simp add: power_int_diff)
  also have "j - (?e - 52) = int t" using t by (simp add: t_def)
  also have "rat_of_int k * 2 powi (int t) = rat_of_int (k * 2 ^ t)" by simp
  finally have q: "x / ?u = rat_of_int (k * 2 ^ t)" .
  have "fl64 x = rat_of_int (rne (x / ?u)) * ?u" by (rule fl64_pos_eq [OF xpos])
  also have "\<dots> = (x / ?u) * ?u" unfolding q by (simp only: rne_of_int)
  also have "\<dots> = x" by simp
  finally show ?thesis .
qed

lemma fl64_exact:
  assumes "\<bar>k\<bar> < 2 ^ 53"
  shows "fl64 (rat_of_int k * 2 powi j) = rat_of_int k * 2 powi j"
proof -
  consider "0 < k" | "k = 0" | "k < 0" by linarith
  then show ?thesis
  proof cases
    case 1
    then show ?thesis using fl64_exact_pos [of k _ j] assms by simp
  next
    case 2
    then show ?thesis by simp
  next
    case 3
    then have "fl64 (rat_of_int (- k) * 2 powi j) = rat_of_int (- k) * 2 powi j"
      using fl64_exact_pos [of "- k" _ j] assms by simp
    then show ?thesis using fl64_neg [of "rat_of_int k * 2 powi j"] by simp
  qed
qed

lemma fl64_of_int:
  assumes "\<bar>k\<bar> < 2 ^ 53"
  shows "fl64 (rat_of_int k) = rat_of_int k"
  using fl64_exact [OF assms, of 0] by simp

lemma fl64_numeral [simp]:
  "numeral w < (2 ^ 53 :: int) \<Longrightarrow> fl64 (numeral w) = numeral w"
  using fl64_of_int [of "numeral w"] by simp

lemma fl64_1 [simp]: "fl64 1 = 1"
  using fl64_of_int [of 1] by simp

lemma fl64_idem_pos:
  assumes "0 < x"
  shows "fl64 (fl64 x) = fl64 x"
proof -
  let ?e = "ilog2 x"
  let ?u = "(2::rat) powi (?e - 52)"
  let ?m = "rne (x / ?u)"
  have m: "2 ^ 52 \<le> ?m" "?m \<le> 2 ^ 53" using mant_bounds [OF assms] by simp_all
  have eq: "fl64 x = rat_of_int ?m * 2 powi (?e - 52)" by (rule fl64_pos_eq [OF assms])
  show ?thesis
  proof (cases "?m = 2 ^ 53")
    case True
    have "fl64 x = 2 ^ 53 * ?u" unfolding eq True by simp
    also have "\<dots> = rat_of_int 1 * 2 powi (?e + 1)"
      using power_int_add [of "2::rat" 53 "?e - 52"] by (simp add: add.commute)
    finally have "fl64 x = rat_of_int 1 * 2 powi (?e + 1)" .
    then show ?thesis using fl64_exact_pos [of 1 "fl64 x" "?e + 1"] by simp
  next
    case False
    then have "?m < 2 ^ 53" using m(2) by simp
    moreover have "0 < ?m" using m(1) by simp
    ultimately show ?thesis using fl64_exact_pos [of ?m "fl64 x" "?e - 52"] eq by simp
  qed
qed

lemma fl64_idem [simp]: "fl64 (fl64 x) = fl64 x"
proof -
  consider "0 < x" | "x = 0" | "x < 0" by linarith
  then show ?thesis
  proof cases
    case 1
    then show ?thesis by (rule fl64_idem_pos)
  next
    case 2
    then show ?thesis by simp
  next
    case 3
    then have "fl64 (fl64 (- x)) = fl64 (- x)" using fl64_idem_pos [of "- x"] by simp
    then show ?thesis by (simp add: fl64_neg)
  qed
qed

lemma fl64_scale_pos:
  assumes "0 < x"
  shows "fl64 (x * 2 powi j) = fl64 x * 2 powi j"
proof -
  let ?y = "x * 2 powi j"
  have p: "(0::rat) < 2 powi j" by simp
  have ypos: "0 < ?y" using assms by simp
  have b: "2 powi (ilog2 x) \<le> x" "x < 2 powi (ilog2 x + 1)"
    using ilog2_bounds [OF assms] by simp_all
  have "2 powi (ilog2 x + j) \<le> ?y"
    using b(1) p by (simp add: power_int_add)
  moreover have "?y < 2 powi (ilog2 x + j + 1)"
  proof -
    have "?y < 2 powi (ilog2 x + 1) * 2 powi j" using b(2) p by simp
    also have "\<dots> = 2 powi (ilog2 x + j + 1)"
      using power_int_add [of "2::rat" "ilog2 x + 1" j] by (simp add: ac_simps)
    finally show ?thesis .
  qed
  ultimately have e: "ilog2 ?y = ilog2 x + j" using ilog2_unique [OF ypos] by simp
  have e': "ilog2 x + j - 52 = (ilog2 x - 52) + j" by simp
  have u: "(2::rat) powi (ilog2 x + j - 52) = 2 powi (ilog2 x - 52) * 2 powi j"
    unfolding e' by (simp add: power_int_add)
  have q: "?y / (2 powi (ilog2 x - 52) * 2 powi j) = x / 2 powi (ilog2 x - 52)"
    by simp
  show ?thesis
    unfolding fl64_pos_eq [OF ypos] fl64_pos_eq [OF assms] e u q by simp
qed

lemma fl64_scale: "fl64 (x * 2 powi j) = fl64 x * 2 powi j"
proof -
  consider "0 < x" | "x = 0" | "x < 0" by linarith
  then show ?thesis
  proof cases
    case 1
    then show ?thesis by (rule fl64_scale_pos)
  next
    case 2
    then show ?thesis by simp
  next
    case 3
    then have "fl64 (- x * 2 powi j) = fl64 (- x) * 2 powi j"
      using fl64_scale_pos [of "- x" j] by simp
    then show ?thesis using fl64_neg [of "x * 2 powi j"] by (simp add: fl64_neg)
  qed
qed

lemma fl64_err_pos:
  assumes "0 < x"
  shows "\<bar>fl64 x - x\<bar> \<le> x / 2 ^ 53"
proof -
  let ?e = "ilog2 x"
  let ?u = "(2::rat) powi (?e - 52)"
  let ?m = "rat_of_int (rne (x / ?u))"
  have u: "0 < ?u" by simp
  have "fl64 x - x = (?m - x / ?u) * ?u"
    unfolding fl64_pos_eq [OF assms] by (simp add: algebra_simps)
  then have "\<bar>fl64 x - x\<bar> = \<bar>?m - x / ?u\<bar> * ?u"
    using u by (simp add: abs_mult)
  also have "\<dots> \<le> 1 / 2 * ?u"
    using rne_err [of "x / ?u"] u by (simp only: mult_le_cancel_right_pos)
  also have "\<dots> = 2 powi ?e / 2 ^ 53"
    using power_int_add [of "2::rat" 52 "?e - 52"] by simp
  also have "\<dots> \<le> x / 2 ^ 53"
    using ilog2_bounds [OF assms] by (simp add: divide_right_mono)
  finally show ?thesis .
qed

lemma fl64_err: "\<bar>fl64 x - x\<bar> \<le> \<bar>x\<bar> / 2 ^ 53"
proof -
  consider "0 < x" | "x = 0" | "x < 0" by linarith
  then show ?thesis
  proof cases
    case 1
    then show ?thesis using fl64_err_pos [of x] by simp
  next
    case 2
    then show ?thesis by simp
  next
    case 3
    then show ?thesis using fl64_err_pos [of "- x"] by (simp add: fl64_neg)
  qed
qed

section \<open>Ranges of the intermediate values of rgbToHsl\<close>

lemma fl64_nonneg: "0 \<le> x \<Longrightarrow> 0 \<le> fl64 x"
  using fl64_mono [of 0 x] by simp

lemma fl64_le_numeral:
  "x \<le> numeral w \<Longrightarrow> numeral w < (2 ^ 53 :: int) \<Longrightarrow> fl64 x \<le> numeral w"
  using fl64_mono [of x "numeral w"] by simp

lemma fl64_le_1: "x \<le> 1 \<Longrightarrow> fl64 x \<le> 1"
  using fl64_mono [of x 1] by simp

lemma fl64_ge_m1: "- 1 \<le> x \<Longrightarrow> - 1 \<le> fl64 x"
  using fl64_mono [of "- 1" x] by (simp add: fl64_neg)

lemma fl64_neg_less: "x < 0 \<Longrightarrow> fl64 x < 0"
  using fl64_pos [of "- x"] by (simp add: fl64_neg)

lemma fl64_unit: "0 \<le> x \<Longrightarrow> x \<le> 1 \<Longrightarrow> 0 \<le> fl64 x \<and> fl64 x \<le> 1"
  by (simp add: fl64_nonneg fl64_le_1)

lemma num_div_Some [simp]: "y \<noteq> 0 \<Longrightarrow> num_div x y = Some (fl64 (x / y))"
  by (simp add: num_div_def)

lemma lightness_unit:
  assumes "0 \<le> mn" "mn \<le> mx" "mx \<le> 1"
  shows "0 \<le> fl64 (num_add mx mn / 2) \<and> fl64 (num_add mx mn / 2) \<le> 1"
proof -
  have "0 \<le> num_add mx mn" unfolding num_add_def using assms by (intro fl64_nonneg) simp
  moreover have "num_add mx mn \<le> 2"
    unfolding num_add_def using assms by (intro fl64_le_numeral) simp_all
  ultimately show ?thesis by (intro fl64_unit) simp_all
qed

lemma delta_pos: "mn < mx \<Longrightarrow> 0 < num_sub mx mn"
  unfolding num_sub_def by (rule fl64_pos) simp

lemma sum_pos: "0 \<le> mn \<Longrightarrow> mn < mx \<Longrightarrow> 0 < num_add mx mn"
  unfolding num_add_def by (rule fl64_pos) simp

lemma twominus_pos:
  assumes "mn < mx" "mx \<le> 1"
  shows "0 < num_sub (num_sub 2 mx) mn"
proof -
  have "fl64 1 \<le> fl64 (2 - mx)" using assms by (intro fl64_mono) simp
  then have "1 \<le> num_sub 2 mx" by (simp add: num_sub_def)
  then show ?thesis unfolding num_sub_def [of _ mn] using assms by (intro fl64_pos) simp
qed

lemma sat_low_unit:
  assumes "0 \<le> mn" "mn < mx"
  shows "0 \<le> fl64 (num_sub mx mn / num_add mx mn) \<and> fl64 (num_sub mx mn / num_add mx mn) \<le> 1"
proof -
  have d: "0 < num_sub mx mn" using assms by (intro delta_pos)
  have s: "0 < num_add mx mn" using assms by (intro sum_pos)
  have "num_sub mx mn \<le> num_add mx mn"
    unfolding num_sub_def num_add_def using assms by (intro fl64_mono) simp
  then show ?thesis using d s by (intro fl64_unit) simp_all
qed

lemma sat_high_unit:
  assumes "mn < mx" "mx \<le> 1"
  shows "0 \<le> fl64 (num_sub mx mn / num_sub (num_sub 2 mx) mn)
       \<and> fl64 (num_sub mx mn / num_sub (num_sub 2 mx) mn) \<le> 1"
proof -
  have d: "0 < num_sub mx mn" using assms by (intro delta_pos)
  have s: "0 < num_sub (num_sub 2 mx) mn" using assms by (intro twominus_pos)
  have "fl64 1 \<le> fl64 (2 - mx)" using assms by (intro fl64_mono) simp
  then have "1 \<le> num_sub 2 mx" by (simp add: num_sub_def)
  then have "mx - mn \<le> num_sub 2 mx - mn" using assms by simp
  then have "num_sub mx mn \<le> num_sub (num_sub 2 mx) mn"
    unfolding num_sub_def [of mx mn] num_sub_def [of _ mn] by (rule fl64_mono)
  then show ?thesis using d s by (intro fl64_unit) simp_all
qed

lemma quot_range:
  assumes "mn \<le> x" "x \<le> mx" "mn \<le> y" "y \<le> mx" "mn < mx"
  shows "- 1 \<le> fl64 (num_sub x y / num_sub mx mn)" "fl64 (num_sub x y / num_sub mx mn) \<le> 1"
    "x < y \<Longrightarrow> fl64 (num_sub x y / num_sub mx mn) \<le> 0"
    "y \<le> x \<Longrightarrow> 0 \<le> fl64 (num_sub x y / num_sub mx mn)"
proof -
  have d: "0 < num_sub mx mn" using assms by (intro delta_pos)
  have u: "num_sub x y \<le> num_sub mx mn"
    unfolding num_sub_def using assms by (intro fl64_mono) simp
  have "fl64 (- (mx - mn)) \<le> fl64 (x - y)" using assms by (intro fl64_mono) simp
  then have l: "- num_sub mx mn \<le> num_sub x y"
    unfolding num_sub_def fl64_neg .
  show "- 1 \<le> fl64 (num_sub x y / num_sub mx mn)"
    using l d by (intro fl64_ge_m1) (simp add: pos_le_divide_eq)
  show "fl64 (num_sub x y / num_sub mx mn) \<le> 1"
    using u d by (intro fl64_le_1) simp
  show "fl64 (num_sub x y / num_sub mx mn) \<le> 0" if "x < y"
  proof -
    have "num_sub x y < 0" unfolding num_sub_def using that by (intro fl64_neg_less) simp
    then have "num_sub x y / num_sub mx mn < 0" using d by (simp add: divide_neg_pos)
    then show ?thesis using fl64_neg_less by (simp add: less_imp_le)
  qed
  show "0 \<le> fl64 (num_sub x y / num_sub mx mn)" if "y \<le> x"
  proof -
    have "0 \<le> num_sub x y" unfolding num_sub_def using that by (intro fl64_nonneg) simp
    then show ?thesis using d by (intro fl64_nonneg) simp
  qed
qed

lemma hue_unit:
  assumes "0 \<le> q + c" "q + c \<le> 6"
  shows "0 \<le> fl64 (num_add q c / 6) \<and> fl64 (num_add q c / 6) \<le> 1"
proof -
  have "0 \<le> num_add q c" unfolding num_add_def using assms by (intro fl64_nonneg)
  moreover have "num_add q c \<le> 6"
    unfolding num_add_def using assms by (intro fl64_le_numeral) simp_all
  ultimately show ?thesis by (intro fl64_unit) simp_all
qed

lemma chan_unit:
  assumes "0 \<le> r" "r \<le> 255"
  shows "0 \<le> fl64 (rat_of_int r / 255) \<and> fl64 (rat_of_int r / 255) \<le> 1"
  using assms by (intro fl64_unit) simp_all

lemma saturation_unit:
  assumes "0 \<le> mn" "mn < mx" "mx \<le> 1"
  shows "\<exists>s. saturation l (num_sub mx mn) mx mn = Some s \<and> 0 \<le> s \<and> s \<le> 1"
proof (cases "1 / 2 < l")
  case True
  have "num_sub (num_sub 2 mx) mn \<noteq> 0" using twominus_pos [of mn mx] assms by simp
  then show ?thesis
    using True sat_high_unit [of mn mx] assms by (simp add: saturation_def)
next
  case False
  have "num_add mx mn \<noteq> 0" using sum_pos [of mn mx] assms by simp
  then show ?thesis
    using False sat_low_unit [of mn mx] assms by (simp add: saturation_def)
qed

lemma hueTurn_unit:
  assumes "mn \<le> r" "r \<le> mx" "mn \<le> g" "g \<le> mx" "mn \<le> b" "b \<le> mx" "mn < mx"
  shows "\<exists>h. hueTurn r g b mx (num_sub mx mn) = Some h \<and> 0 \<le> h \<and> h \<le> 1"
proof -
  have d: "num_sub mx mn \<noteq> 0" using delta_pos [of mn mx] assms by simp
  note gb = quot_range [of mn g mx b] and br = quot_range [of mn b mx r]
    and rg = quot_range [of mn r mx g]
  consider (red) "mx = r" "g < b" | (red') "mx = r" "b \<le> g"
    | (green) "mx \<noteq> r" "mx = g" | (blue) "mx \<noteq> r" "mx \<noteq> g" by linarith
  then show ?thesis
  proof cases
    case red
    then show ?thesis
      using d gb assms hue_unit [of "fl64 (num_sub g b / num_sub mx mn)" 6]
      by (simp add: hueTurn_def)
  next
    case red'
    then show ?thesis
      using d gb assms hue_unit [of "fl64 (num_sub g b / num_sub mx mn)" 0]
      by (simp add: hueTurn_def)
  next
    case green
    then show ?thesis
      using d br assms hue_unit [of "fl64 (num_sub b r / num_sub mx mn)" 2]
      by (simp add: hueTurn_def)
  next
    case blue
    then show ?thesis
      using d rg assms hue_unit [of "fl64 (num_sub r g / num_sub mx mn)" 4]
      by (simp add: hueTurn_def)
  qed
qed

lemma hslUnit_range:
  assumes "0 \<le> r" "r \<le> 255" "0 \<le> g" "g \<le> 255" "0 \<le> b" "b \<le> 255"
  shows "\<exists>h s l. hslUnit r g b = Some (h, s, l)
           \<and> 0 \<le> h \<and> h \<le> 1 \<and> 0 \<le> s \<and> s \<le> 1 \<and> 0 \<le> l \<and> l \<le> 1"
proof -
  let ?R = "fl64 (rat_of_int r / 255)"
  let ?G = "fl64 (rat_of_int g / 255)"
  let ?B = "fl64 (rat_of_int b / 255)"
  let ?mx = "Math_max ?R ?G ?B"
  let ?mn = "Math_min ?R ?G ?B"
  let ?l = "fl64 (num_add ?mx ?mn / 2)"
  have c: "0 \<le> ?R" "?R \<le> 1" "0 \<le> ?G" "?G \<le> 1" "0 \<le> ?B" "?B \<le> 1"
    using assms chan_unit by simp_all
  have m: "?mn \<le> ?R" "?R \<le> ?mx" "?mn \<le> ?G" "?G \<le> ?mx" "?mn \<le> ?B" "?B \<le> ?mx"
    by (simp_all add: Math_max_def Math_min_def)
  have m0: "0 \<le> ?mn" using c by (simp add: Math_min_def)
  have m1: "?mx \<le> 1" using c by (simp add: Math_max_def)
  have mm: "?mn \<le> ?mx" using m(1,2) by (rule order_trans)
  have l: "0 \<le> ?l \<and> ?l \<le> 1" using m0 mm m1 by (rule lightness_unit)
  show ?thesis
  proof (cases "?mx = ?mn")
    case True
    then show ?thesis using l by (simp add: hslUnit_def Let_def)
  next
    case False
    then have lt: "?mn < ?mx" using mm by simp
    obtain s where s: "saturation ?l (num_sub ?mx ?mn) ?mx ?mn = Some s" "0 \<le> s" "s \<le> 1"
      using saturation_unit [OF m0 lt m1] by blast
    obtain h where h: "hueTurn ?R ?G ?B ?mx (num_sub ?mx ?mn) = Some h" "0 \<le> h" "h \<le> 1"
      using hueTurn_unit [OF m lt] by blast
    show ?thesis using False l s h by (simp add: hslUnit_def Let_def)
  qed
qed

lemma Math_round_range:
  assumes "0 \<le> x" "x \<le> 1" "0 \<le> n" "n < 2 ^ 53"
  shows "0 \<le> Math_round (num_mul x (rat_of_int n))
       \<and> Math_round (num_mul x (rat_of_int n)) \<le> n"
proof -
  have n: "0 \<le> rat_of_int n" using assms by simp
  have "0 \<le> num_mul x (rat_of_int n)"
    unfolding num_mul_def using assms by (intro fl64_nonneg) simp
  moreover have "x * rat_of_int n \<le> rat_of_int n"
    using mult_right_mono [OF assms(2) n] by simp
  then have "fl64 (x * rat_of_int n) \<le> fl64 (rat_of_int n)" by (rule fl64_mono)
  then have "num_mul x (rat_of_int n) \<le> rat_of_int n"
    using assms by (simp add: num_mul_def fl64_of_int)
  ultimately show ?thesis unfolding Math_round_def by (simp add: le_floor_iff) linarith
qed

lemma hslScaled_range:
  assumes "0 \<le> r" "r \<le> 255" "0 \<le> g" "g \<le> 255" "0 \<le> b" "b \<le> 255"
  shows "\<exists>H S L. hslScaled r g b = Some (H, S, L)
           \<and> 0 \<le> H \<and> H \<le> 360 \<and> 0 \<le> S \<and> S \<le> 100 \<and> 0 \<le> L \<and> L \<le> 100"
proof -
  obtain h s l where u: "hslUnit r g b = Some (h, s, l)"
      "0 \<le> h" "h \<le> 1" "0 \<le> s" "s \<le> 1" "0 \<le> l" "l \<le> 1"
    using hslUnit_range [OF assms] by blast
  show ?thesis
    using u Math_round_range [of h 360] Math_round_range [of s 100] Math_round_range [of l 100]
    by (simp add: hslScaled_def)
qed

section \<open>Hexadecimal digits\<close>

lemma digits_all:
  "\<forall>d \<in> set [0 ..< 16]. digitChar d \<in> set ''0123456789abcdef'' \<and> hexValue (digitChar d) = Some d"
  by code_simp

lemma digitChar_hex: "d < 16 \<Longrightarrow> digitChar d \<in> set ''0123456789abcdef''"
  using digits_all by simp

lemma hexValue_digitChar: "d < 16 \<Longrightarrow> hexValue (digitChar d) = Some d"
  using digits_all by simp

lemma digitChar_0: "digitChar 0 = CHR ''0''"
  by (simp add: digitChar_def)

lemma toDigits16_small: "n < 16 \<Longrightarrow> toDigits 16 n = [digitChar n]"
  by (simp add: toDigits.simps [of 16 n])

lemma toDigits16_two:
  "16 \<le> n \<Longrightarrow> n < 256 \<Longrightarrow> toDigits 16 n = [digitChar (n div 16), digitChar (n mod 16)]"
  by (simp add: toDigits.simps [of 16 n] toDigits16_small)

lemma toHex_pair:
  assumes "0 \<le> n" "n \<le> 255"
  shows "toHex n = [digitChar (nat n div 16), digitChar (nat n mod 16)]"
proof (cases "nat n < 16")
  case True
  then show ?thesis
    using assms by (simp add: toHex_def Number_toString_def padStart_def toDigits16_small digitChar_0)
next
  case False
  then have "16 \<le> nat n" "nat n < 256" using assms by simp_all
  then show ?thesis
    using assms by (simp add: toHex_def Number_toString_def padStart_def toDigits16_two)
qed

lemma parseHexInt_pair:
  "a < 16 \<Longrightarrow> b < 16 \<Longrightarrow> parseHexInt [digitChar a, digitChar b] = Some (16 * a + b)"
  by (simp add: parseHexInt_def hexValue_digitChar)

lemma parseHexInt_toHex:
  assumes "0 \<le> n" "n \<le> 255"
  shows "parseHexInt (toHex n) = Some (nat n)"
proof -
  have "nat n div 16 < 16" "nat n mod 16 < 16" using assms by simp_all
  then show ?thesis unfolding toHex_pair [OF assms] by (simp add: parseHexInt_pair)
qed

lemma length_toHex: "0 \<le> n \<Longrightarrow> n \<le> 255 \<Longrightarrow> length (toHex n) = 2"
  by (simp add: toHex_pair)

lemma decodeHex_rgbToHex:
  assumes "0 \<le> r" "r \<le> 255" "0 \<le> g" "g \<le> 255" "0 \<le> b" "b \<le> 255"
  shows "decodeHex (rgbToHex r g b) = Some (r, g, b)"
  using assms
  by (simp add: decodeHex_def rgbToHex_def length_toHex parseHexInt_toHex)

section \<open>Decimal digits and the rgb string\<close>

lemma dec_digits_all:
  "\<forall>d \<in> set [0 ..< 10]. isDecDigit (digitChar d) \<and> decValue (digitChar d) = Some d"
  by code_simp

lemma isDecDigit_digitChar: "d < 10 \<Longrightarrow> isDecDigit (digitChar d)"
  using dec_digits_all by simp

lemma decValue_digitChar: "d < 10 \<Longrightarrow> decValue (digitChar d) = Some d"
  using dec_digits_all by simp

lemma not_digit_separators: "\<not> isDecDigit CHR '',''" "\<not> isDecDigit CHR '')''"
  by (simp_all add: isDecDigit_def)

lemma toDigits10_nonempty: "toDigits 10 n \<noteq> []"
  by (subst toDigits.simps) simp

lemma toDigits10_digits: "\<forall>c \<in> set (toDigits 10 n). isDecDigit c"
proof (induction n rule: less_induct)
  case (less n)
  show ?case
  proof (cases "n < 10")
    case True
    then show ?thesis by (subst toDigits.simps) (simp add: isDecDigit_digitChar)
  next
    case False
    then have "n div 10 < n" by simp
    then have "\<forall>c \<in> set (toDigits 10 (n div 10)). isDecDigit c" by (rule less.IH)
    then show ?thesis using False
      by (subst toDigits.simps) (simp add: isDecDigit_digitChar)
  qed
qed

lemma fold_toDigits10:
  "fold (\<lambda>c acc. do { a \<leftarrow> acc; v \<leftarrow> decValue c; Some (10 * a + v) }) (toDigits 10 n) (Some 0)
     = Some n"
proof (induction n rule: less_induct)
  case (less n)
  show ?case
  proof (cases "n < 10")
    case True
    then show ?thesis by (subst toDigits.simps) (simp add: decValue_digitChar)
  next
    case False
    then have "n div 10 < n" by simp
    then have "fold (\<lambda>c acc. do { a \<leftarrow> acc; v \<leftarrow> decValue c; Some (10 * a + v) })
                 (toDigits 10 (n div 10)) (Some 0) = Some (n div 10)"
      by (rule less.IH)
    then show ?thesis using False
      by (subst toDigits.simps) (simp add: decValue_digitChar)
  qed
qed

lemma parseDecInt_toDigits: "parseDecInt (toDigits 10 n) = Some n"
  by (simp add: parseDecInt_def toDigits10_nonempty fold_toDigits10)

lemma takeWhile_digits:
  "\<forall>c \<in> set ds. isDecDigit c \<Longrightarrow> \<not> isDecDigit x
     \<Longrightarrow> takeWhile isDecDigit (ds @ x # rest) = ds"
  by (simp add: takeWhile_append2)

lemma dropWhile_digits:
  "\<forall>c \<in> set ds. isDecDigit c \<Longrightarrow> \<not> isDecDigit x
     \<Longrightarrow> dropWhile isDecDigit (ds @ x # rest) = x # rest"
  by (simp add: dropWhile_append2)

lemma decodeRgb_digits:
  "decodeRgb (''rgb('' @ toDigits 10 x @ '', '' @ toDigits 10 y @ '', '' @ toDigits 10 z @ '')'')
     = Some (int x, int y, int z)"
proof -
  note d = toDigits10_digits
  have 1: "takeWhile isDecDigit (toDigits 10 n @ CHR '','' # rest) = toDigits 10 n"
    "dropWhile isDecDigit (toDigits 10 n @ CHR '','' # rest) = CHR '','' # rest"
    "takeWhile isDecDigit (toDigits 10 n @ CHR '')'' # rest) = toDigits 10 n"
    "dropWhile isDecDigit (toDigits 10 n @ CHR '')'' # rest) = CHR '')'' # rest"
    for n rest
    using d [of n] not_digit_separators
    by (simp_all add: takeWhile_digits dropWhile_digits)
  show ?thesis
    by (simp add: decodeRgb_def Let_def 1 parseDecInt_toDigits)
qed

lemma decodeRgb_rgbString:
  assumes "0 \<le> r" "0 \<le> g" "0 \<le> b"
  shows "decodeRgb (rgbString r g b) = Some (r, g, b)"
  using assms decodeRgb_digits [of "nat r" "nat g" "nat b"]
  by (simp add: rgbString_def Number_toString_def)

section \<open>Grey inputs, the reference algorithm and the random channel\<close>

lemma fl64_twice: "fl64 (2 * x) = 2 * fl64 x"
  using fl64_scale [of x 1] by (simp add: mult.commute)

lemma fl64_half: "fl64 (x / 2) = fl64 x / 2"
  using fl64_scale [of x "- 1"] by (simp add: power_int_minus_divide)

lemma gray_unit: "hslUnit v v v = Some (0, 0, fl64 (rat_of_int v / 255))"
  by (simp add: hslUnit_def Math_max_def Math_min_def num_add_def fl64_twice fl64_half)

lemma half_gap:
  fixes v :: int
  defines "y \<equiv> rat_of_int v / 255 * 100 + 1 / 2"
  shows "rat_of_int \<lfloor>y\<rfloor> + 1 / 102 \<le> y" "y \<le> rat_of_int \<lfloor>y\<rfloor> + 101 / 102"
proof -
  define t where "t = 40 * v + 51"
  have y: "y = rat_of_int t / rat_of_int 102"
    by (simp add: t_def y_def field_simps)
  have k: "\<lfloor>y\<rfloor> = t div 102"
    unfolding y by (rule floor_divide_of_int_eq)
  have "odd t" by (simp add: t_def)
  then have "\<not> 102 dvd t" by (metis dvd_trans even_numeral)
  then have "t mod 102 \<noteq> 0" by (simp add: dvd_eq_mod_eq_0)
  moreover have "0 \<le> t mod 102" "t mod 102 < 102" by simp_all
  ultimately have m: "1 \<le> t mod 102" "t mod 102 \<le> 101" by linarith+
  have "t = 102 * (t div 102) + t mod 102" by simp
  then have "rat_of_int t = 102 * rat_of_int (t div 102) + rat_of_int (t mod 102)"
    by (metis of_int_add of_int_mult of_int_numeral)
  then have d: "y = rat_of_int (t div 102) + rat_of_int (t mod 102) / 102"
    unfolding y by simp
  have m': "1 \<le> rat_of_int (t mod 102)" "rat_of_int (t mod 102) \<le> 101"
    using m by linarith+
  show "rat_of_int \<lfloor>y\<rfloor> + 1 / 102 \<le> y"
    unfolding k using d m' by linarith
  show "y \<le> rat_of_int \<lfloor>y\<rfloor> + 101 / 102"
    unfolding k using d m' by linarith
qed

lemma gray_round:
  assumes "0 \<le> v" "v \<le> 255"
  shows "Math_round (num_mul (fl64 (rat_of_int v / 255)) 100) = round (rat_of_int v / 255 * 100)"
proof -
  define x where "x = rat_of_int v / 255"
  define R where "R = fl64 x"
  define P where "P = fl64 (R * 100)"
  have x: "0 \<le> x" "x \<le> 1" using assms by (simp_all add: x_def)
  have R: "0 \<le> R" "R \<le> 1" using x by (simp_all add: R_def fl64_nonneg fl64_le_1)
  have e1: "\<bar>R - x\<bar> \<le> 1 / 2 ^ 53"
  proof -
    have "\<bar>R - x\<bar> \<le> \<bar>x\<bar> / 2 ^ 53" unfolding R_def by (rule fl64_err)
    also have "\<dots> \<le> 1 / 2 ^ 53" using x by (simp add: divide_right_mono)
    finally show ?thesis .
  qed
  have e2: "\<bar>P - R * 100\<bar> \<le> 100 / 2 ^ 53"
  proof -
    have "\<bar>P - R * 100\<bar> \<le> \<bar>R * 100\<bar> / 2 ^ 53" unfolding P_def by (rule fl64_err)
    also have "\<dots> \<le> 100 / 2 ^ 53" using R by (simp add: divide_right_mono)
    finally show ?thesis .
  qed
  have c1: "\<bar>R - x\<bar> \<le> 1 / 1000000" using e1 by simp
  have c2: "\<bar>P - R * 100\<bar> \<le> 1 / 1000000" using e2 by simp
  have e: "\<bar>P - x * 100\<bar> \<le> 1 / 1000" using c1 c2 by linarith
  have g: "rat_of_int \<lfloor>x * 100 + 1 / 2\<rfloor> + 1 / 102 \<le> x * 100 + 1 / 2"
      "x * 100 + 1 / 2 \<le> rat_of_int \<lfloor>x * 100 + 1 / 2\<rfloor> + 101 / 102"
    using half_gap [of v] by (simp_all only: x_def)
  have "\<lfloor>P + 1 / 2\<rfloor> = \<lfloor>x * 100 + 1 / 2\<rfloor>"
  proof (rule floor_unique)
    show "rat_of_int \<lfloor>x * 100 + 1 / 2\<rfloor> \<le> P + 1 / 2" using e g(1) by linarith
    show "P + 1 / 2 < rat_of_int \<lfloor>x * 100 + 1 / 2\<rfloor> + 1" using e g(2) by linarith
  qed
  then show ?thesis by (simp add: Math_round_def num_mul_def round_def P_def R_def x_def)
qed

lemma sat_flip:
  "(if l \<le> 1 / 2 then num_div d (num_add mx mn) else num_div d (num_sub (num_sub 2 mx) mn))
     = saturation l d mx mn"
  by (auto simp: saturation_def)

lemma spec_fold:
  "spec_rgbToHsl r g b = do {
     r' \<leftarrow> num_div (of_int r) 255;
     g' \<leftarrow> num_div (of_int g) 255;
     b' \<leftarrow> num_div (of_int b) 255;
     let mx = Math_max r' g' b';
     let mn = Math_min r' g' b';
     lightness \<leftarrow> num_div (num_add mx mn) 2;
     (turn, sat) \<leftarrow>
       (if mx = mn then Some (0, 0)
        else do {
          let d = num_sub mx mn;
          sat \<leftarrow> saturation lightness d mx mn;
          turn \<leftarrow> hueTurn r' g' b' mx d;
          Some (turn, sat) });
     let H = round_half_away (num_mul turn 360);
     let S = round_half_away (num_mul sat 100);
     let L2 = round_half_away (num_mul lightness 100);
     Some (''hsl('' @ Number_toString 10 H @ '', '' @ Number_toString 10 S @ ''%, ''
             @ Number_toString 10 L2 @ ''%)'') }"
  unfolding spec_rgbToHsl_def sat_flip hueTurn_def ..

lemma spec_unfold:
  "spec_rgbToHsl r g b =
     map_option (\<lambda>(h, s, l). hslString (round_half_away (num_mul h 360),
         round_half_away (num_mul s 100), round_half_away (num_mul l 100))) (hslUnit r g b)"
  unfolding spec_fold
  by (simp add: hslUnit_def hslString_def Let_def split: Option.bind_splits)

lemma round_half_away_nonneg: "0 \<le> x \<Longrightarrow> round_half_away x = Math_round x"
  by (simp add: round_half_away_def Math_round_def)

lemma num_mul_nonneg: "0 \<le> x \<Longrightarrow> 0 \<le> y \<Longrightarrow> 0 \<le> num_mul x y"
  unfolding num_mul_def by (intro fl64_nonneg) simp

lemma spec_refines:
  assumes "0 \<le> r" "r \<le> 255" "0 \<le> g" "g \<le> 255" "0 \<le> b" "b \<le> 255"
  shows "rgbToHsl r g b = spec_rgbToHsl r g b"
proof -
  obtain h s l where u: "hslUnit r g b = Some (h, s, l)"
      "0 \<le> h" "h \<le> 1" "0 \<le> s" "s \<le> 1" "0 \<le> l" "l \<le> 1"
    using hslUnit_range [OF assms] by blast
  show ?thesis
    unfolding spec_unfold rgbToHsl_def hslScaled_def using u
    by (simp add: round_half_away_nonneg num_mul_nonneg)
qed

lemma randomRGB_exact: "randomRGB u = \<lfloor>fl64 u * 256\<rfloor>"
  using fl64_scale [of u 8] by (simp add: randomRGB_def Math_floor_def num_mul_def)

lemma randomRGB_range:
  assumes "representable u" "0 \<le> u" "u < 1"
  shows "0 \<le> randomRGB u \<and> randomRGB u \<le> 255"
proof -
  have "fl64 u = u" using assms(1) by (simp add: representable_def)
  then have "randomRGB u = \<lfloor>u * 256\<rfloor>" by (simp add: randomRGB_exact)
  moreover have "0 \<le> u * 256" "u * 256 < 256" using assms by simp_all
  ultimately show ?thesis by (simp add: le_floor_iff floor_less_iff)
qed

section \<open>The claims\<close>

lemma hslUnit_channel:
  assumes "channel r" "channel g" "channel b"
  shows "\<exists>h s l. hslUnit r g b = Some (h, s, l)
           \<and> 0 \<le> h \<and> h \<le> 1 \<and> 0 \<le> s \<and> s \<le> 1 \<and> 0 \<le> l \<and> l \<le> 1"
  using assms hslUnit_range [of r g b] by (simp add: channel_def)

lemma hslScaled_channel:
  assumes "channel r" "channel g" "channel b"
  shows "\<exists>H S L. hslScaled r g b = Some (H, S, L)
           \<and> 0 \<le> H \<and> H \<le> 360 \<and> 0 \<le> S \<and> S \<le> 100 \<and> 0 \<le> L \<and> L \<le> 100"
  using assms hslScaled_range [of r g b] by (simp add: channel_def)

lemma ex_hsl_360: "hslScaled 255 0 1 = Some (360, 100, 50)"
  by code_simp

text \<open>
  Claim C1, as stated, fails: for the channel triple (255, 0, 1) the hue fraction is
  just below one full turn, its product with 360 is about 359.76, and Math.round gives
  360, so rgbToHsl prints 360 as H.
\<close>

theorem hue_360_emitted:
  "hslScaled 255 0 1 = Some (360, 100, 50) \<and> rgbToHsl 255 0 1 = Some ''hsl(360, 100%, 50%)''"
proof -
  have "hslString (360, 100, 50) = ''hsl(360, 100%, 50%)''" by code_simp
  then show ?thesis by (simp add: rgbToHsl_def ex_hsl_360)
qed

text \<open>
  Claim C1, amended: for all channel values r, g, b the function rgbToHsl returns a
  string, and the hue H it prints is an integer with 0 <= H <= 360 (the value 360 is
  reached, and nothing wraps it to 0).
\<close>

theorem hue_within_0_360:
  assumes "channel r" "channel g" "channel b"
  shows "\<exists>H S L. hslScaled r g b = Some (H, S, L) \<and> rgbToHsl r g b = Some (hslString (H, S, L))
           \<and> 0 \<le> H \<and> H \<le> 360"
proof -
  obtain H S L where "hslScaled r g b = Some (H, S, L)" "0 \<le> H" "H \<le> 360"
    using hslScaled_channel [OF assms] by blast
  then show ?thesis by (simp add: rgbToHsl_def)
qed

text \<open>
  Witness for C1 (amended) at (255, 0, 1).
\<close>

theorem hue_within_0_360_witness:
  "channel 255 \<and> channel 0 \<and> channel 1
   \<and> (\<exists>H S L. hslScaled 255 0 1 = Some (H, S, L) \<and> rgbToHsl 255 0 1 = Some (hslString (H, S, L))
           \<and> 0 \<le> H \<and> H \<le> 360)"
  using hue_within_0_360 [of 255 0 1] by (simp add: channel_def)

lemma num_mul_0 [simp]: "num_mul 0 y = 0"
  by (simp add: num_mul_def)

lemma Math_round_0 [simp]: "Math_round 0 = 0"
  by (simp add: Math_round_def floor_eq_iff)

lemma Number_toString_0: "Number_toString 10 0 = ''0''"
  by (simp add: Number_toString_def toDigits.simps [of 10 0] digitChar_def)

text \<open>
  Claim C5: for every channel value v, rgbToHsl(v, v, v) is exactly hsl(0, 0%, L%) where
  L is v / 255 * 100 rounded to the nearest integer; H and S are 0. The rounding of the
  exact quotient and the rounding of the floating-point product give the same L.
\<close>

theorem grayscale_hsl:
  assumes "channel v"
  shows "hslScaled v v v = Some (0, 0, round (rat_of_int v / 255 * 100))
       \<and> rgbToHsl v v v
           = Some (''hsl(0, 0%, '' @ Number_toString 10 (round (rat_of_int v / 255 * 100)) @ ''%)'')
       \<and> Math_round (num_mul (fl64 (rat_of_int v / 255)) 100) = round (rat_of_int v / 255 * 100)"
proof -
  have v: "0 \<le> v" "v \<le> 255" using assms by (simp_all add: channel_def)
  have s: "hslScaled v v v = Some (0, 0, round (rat_of_int v / 255 * 100))"
    by (simp add: hslScaled_def gray_unit gray_round [OF v])
  show ?thesis
    unfolding rgbToHsl_def s by (simp add: hslString_def Number_toString_0 gray_round [OF v])
qed

text \<open>
  Witness for C5 at v = 128.
\<close>

theorem grayscale_hsl_witness:
  "channel 128 \<and> hslScaled 128 128 128 = Some (0, 0, round (rat_of_int 128 / 255 * 100))
       \<and> rgbToHsl 128 128 128
           = Some (''hsl(0, 0%, '' @ Number_toString 10 (round (rat_of_int 128 / 255 * 100)) @ ''%)'')"
  using grayscale_hsl [of 128] by (simp add: channel_def)

text \<open>
  Claim C6: for channel values r, g, b the saturation and lightness before rounding lie
  between 0 and 1, and the integers S and L that rgbToHsl prints lie between 0 and 100.
\<close>

theorem saturation_lightness_percent:
  assumes "channel r" "channel g" "channel b"
  shows "\<exists>h s l. hslUnit r g b = Some (h, s, l) \<and> 0 \<le> s \<and> s \<le> 1 \<and> 0 \<le> l \<and> l \<le> 1
           \<and> hslScaled r g b
               = Some (Math_round (num_mul h 360), Math_round (num_mul s 100),
                       Math_round (num_mul l 100))
           \<and> 0 \<le> Math_round (num_mul s 100) \<and> Math_round (num_mul s 100) \<le> 100
           \<and> 0 \<le> Math_round (num_mul l 100) \<and> Math_round (num_mul l 100) \<le> 100"
proof -
  obtain h s l where u: "hslUnit r g b = Some (h, s, l)"
      "0 \<le> s" "s \<le> 1" "0 \<le> l" "l \<le> 1"
    using hslUnit_channel [OF assms] by blast
  show ?thesis
    using u Math_round_range [of s 100] Math_round_range [of l 100]
    by (simp add: hslScaled_def)
qed

text \<open>
  Witness for C6 at (10, 200, 30).
\<close>

theorem saturation_lightness_percent_witness:
  "channel 10 \<and> channel 200 \<and> channel 30
   \<and> (\<exists>h s l. hslUnit 10 200 30 = Some (h, s, l) \<and> 0 \<le> s \<and> s \<le> 1 \<and> 0 \<le> l \<and> l \<le> 1
           \<and> hslScaled 10 200 30
               = Some (Math_round (num_mul h 360), Math_round (num_mul s 100),
                       Math_round (num_mul l 100))
           \<and> 0 \<le> Math_round (num_mul s 100) \<and> Math_round (num_mul s 100) \<le> 100
           \<and> 0 \<le> Math_round (num_mul l 100) \<and> Math_round (num_mul l 100) \<le> 100)"
  using saturation_lightness_percent [of 10 200 30] by (simp add: channel_def)

text \<open>
  Claim C7: for channel values r, g, b no division of rgbToHsl has a zero divisor, so the
  function returns a string. Whenever max and min differ, d = max - min is positive and
  so are max + min and 2 - max - min (each as computed in floating point), whichever of the
  two the lightness test selects.
\<close>

theorem no_division_by_zero:
  assumes "channel r" "channel g" "channel b"
  shows "hslUnit r g b \<noteq> None \<and> rgbToHsl r g b \<noteq> None
       \<and> (let r' = fl64 (rat_of_int r / 255); g' = fl64 (rat_of_int g / 255);
               b' = fl64 (rat_of_int b / 255);
               mx = Math_max r' g' b'; mn = Math_min r' g' b'
           in mx \<noteq> mn \<longrightarrow>
                0 < num_sub mx mn \<and> 0 < num_add mx mn \<and> 0 < num_sub (num_sub 2 mx) mn)"
proof -
  let ?R = "fl64 (rat_of_int r / 255)"
  let ?G = "fl64 (rat_of_int g / 255)"
  let ?B = "fl64 (rat_of_int b / 255)"
  let ?mx = "Math_max ?R ?G ?B"
  let ?mn = "Math_min ?R ?G ?B"
  have a: "0 \<le> r" "r \<le> 255" "0 \<le> g" "g \<le> 255" "0 \<le> b" "b \<le> 255"
    using assms by (simp_all add: channel_def)
  have c: "0 \<le> ?R" "?R \<le> 1" "0 \<le> ?G" "?G \<le> 1" "0 \<le> ?B" "?B \<le> 1"
    using a chan_unit by simp_all
  have m0: "0 \<le> ?mn" using c by (simp add: Math_min_def)
  have m1: "?mx \<le> 1" using c by (simp add: Math_max_def)
  have mm: "?mn \<le> ?mx" by (simp add: Math_max_def Math_min_def)
  have d: "0 < num_sub ?mx ?mn \<and> 0 < num_add ?mx ?mn \<and> 0 < num_sub (num_sub 2 ?mx) ?mn"
    if "?mx \<noteq> ?mn"
  proof -
    have lt: "?mn < ?mx" using that mm by simp
    show ?thesis using delta_pos [OF lt] sum_pos [OF m0 lt] twominus_pos [OF lt m1] by simp
  qed
  obtain h s l where u: "hslUnit r g b = Some (h, s, l)"
    using hslUnit_channel [OF assms] by blast
  have "hslUnit r g b \<noteq> None \<and> rgbToHsl r g b \<noteq> None"
    using u by (simp add: rgbToHsl_def hslScaled_def)
  then show ?thesis using d unfolding Let_def by blast
qed

text \<open>
  Witness for C7 at (255, 0, 128).
\<close>

theorem no_division_by_zero_witness:
  "channel 255 \<and> channel 0 \<and> channel 128 \<and> hslUnit 255 0 128 \<noteq> None \<and> rgbToHsl 255 0 128 \<noteq> None"
  using no_division_by_zero [of 255 0 128] by (simp add: channel_def)

lemma lit_red: "rgbToHsl 255 0 0 = Some ''hsl(0, 100%, 50%)''"
  by code_simp
lemma lit_green: "rgbToHsl 0 128 0 = Some ''hsl(120, 100%, 25%)''"
  by code_simp
lemma lit_grey: "rgbToHsl 128 128 128 = Some ''hsl(0, 0%, 50%)''"
  by code_simp
lemma lit_white: "rgbToHsl 255 255 255 = Some ''hsl(0, 0%, 100%)''"
  by code_simp
lemma lit_black: "rgbToHsl 0 0 0 = Some ''hsl(0, 0%, 0%)''"
  by code_simp

lemma lit_hex:
  "rgbToHex 255 0 0 = ''#ff0000''" "rgbToHex 0 128 0 = ''#008000''"
  "rgbToHex 128 128 128 = ''#808080''" "rgbToHex 255 255 255 = ''#ffffff''"
  "rgbToHex 0 0 0 = ''#000000''"
  by code_simp+

lemma lit_rgb:
  "rgbString 255 0 0 = ''rgb(255, 0, 0)''" "rgbString 0 128 0 = ''rgb(0, 128, 0)''"
  "rgbString 128 128 128 = ''rgb(128, 128, 128)''"
  "rgbString 255 255 255 = ''rgb(255, 255, 255)''" "rgbString 0 0 0 = ''rgb(0, 0, 0)''"
  by code_simp+

text \<open>
  Claim C2: the five literal scenarios. For each of (255,0,0), (0,128,0), (128,128,128),
  (255,255,255) and (0,0,0) the hex string, the rgb string and the hsl string are exactly
  the ones listed.
\<close>

theorem literal_scenarios:
  "rgbToHex 255 0 0 = ''#ff0000'' \<and> rgbString 255 0 0 = ''rgb(255, 0, 0)''
     \<and> rgbToHsl 255 0 0 = Some ''hsl(0, 100%, 50%)''
   \<and> rgbToHex 0 128 0 = ''#008000'' \<and> rgbString 0 128 0 = ''rgb(0, 128, 0)''
     \<and> rgbToHsl 0 128 0 = Some ''hsl(120, 100%, 25%)''
   \<and> rgbToHex 128 128 128 = ''#808080'' \<and> rgbString 128 128 128 = ''rgb(128, 128, 128)''
     \<and> rgbToHsl 128 128 128 = Some ''hsl(0, 0%, 50%)''
   \<and> rgbToHex 255 255 255 = ''#ffffff'' \<and> rgbString 255 255 255 = ''rgb(255, 255, 255)''
     \<and> rgbToHsl 255 255 255 = Some ''hsl(0, 0%, 100%)''
   \<and> rgbToHex 0 0 0 = ''#000000'' \<and> rgbString 0 0 0 = ''rgb(0, 0, 0)''
     \<and> rgbToHsl 0 0 0 = Some ''hsl(0, 0%, 0%)''"
  by (simp only: lit_red lit_green lit_grey lit_white lit_black lit_hex lit_rgb simp_thms)

text \<open>
  Claim C3: on channel values rgbToHsl computes exactly what the reference algorithm of
  section 4.3 computes (normalisation, max and min, lightness, the achromatic branch, the
  saturation case split at L <= 0.5, the hue branches tested in the order red, green,
  blue, and the final rounding), and it returns a string.
\<close>

theorem hsl_matches_reference:
  assumes "channel r" "channel g" "channel b"
  shows "rgbToHsl r g b = spec_rgbToHsl r g b \<and> rgbToHsl r g b \<noteq> None"
proof -
  have a: "0 \<le> r" "r \<le> 255" "0 \<le> g" "g \<le> 255" "0 \<le> b" "b \<le> 255"
    using assms by (simp_all add: channel_def)
  obtain h s l where "hslUnit r g b = Some (h, s, l)"
    using hslUnit_channel [OF assms] by blast
  then have "rgbToHsl r g b \<noteq> None" by (simp add: rgbToHsl_def hslScaled_def)
  then show ?thesis using spec_refines [OF a] by simp
qed

text \<open>
  Witness for C3 at (255, 255, 0), where red and green tie for the maximum.
\<close>

theorem hsl_matches_reference_witness:
  "channel 255 \<and> channel 255 \<and> channel 0
   \<and> rgbToHsl 255 255 0 = spec_rgbToHsl 255 255 0 \<and> rgbToHsl 255 255 0 \<noteq> None"
proof -
  have c: "channel 255" "channel 0" by (simp_all add: channel_def)
  show ?thesis using hsl_matches_reference [OF c(1) c(1) c(2)] c by blast
qed

lemma toHex_examples: "toHex 5 = ''05''" "toHex 255 = ''ff''"
  by code_simp+

text \<open>
  Claim C4: for channel values r, g, b the result of rgbToHex is the character # followed
  by exactly six characters, each one of 0123456789abcdef, and the three pairs are the
  two base-16 digits (n div 16, n mod 16) of r, g and b, so that a value below 16 is
  padded with a leading 0; 5 gives 05 and 255 gives ff.
\<close>

theorem hex_format:
  assumes "channel r" "channel g" "channel b"
  shows "rgbToHex r g b
           = [CHR ''#'', digitChar (nat r div 16), digitChar (nat r mod 16),
              digitChar (nat g div 16), digitChar (nat g mod 16),
              digitChar (nat b div 16), digitChar (nat b mod 16)]
       \<and> length (rgbToHex r g b) = 7
       \<and> (\<forall>c \<in> set (tl (rgbToHex r g b)). c \<in> set ''0123456789abcdef'')
       \<and> toHex 5 = ''05'' \<and> toHex 255 = ''ff''"
proof -
  have a: "0 \<le> r" "r \<le> 255" "0 \<le> g" "g \<le> 255" "0 \<le> b" "b \<le> 255"
    using assms by (simp_all add: channel_def)
  have e: "rgbToHex r g b
           = [CHR ''#'', digitChar (nat r div 16), digitChar (nat r mod 16),
              digitChar (nat g div 16), digitChar (nat g mod 16),
              digitChar (nat b div 16), digitChar (nat b mod 16)]"
    using a by (simp add: rgbToHex_def toHex_pair)
  have d: "nat r div 16 < 16" "nat r mod 16 < 16" "nat g div 16 < 16" "nat g mod 16 < 16"
      "nat b div 16 < 16" "nat b mod 16 < 16"
    using a by simp_all
  have "\<forall>c \<in> set (tl (rgbToHex r g b)). c \<in> set ''0123456789abcdef''"
    unfolding e using d [THEN digitChar_hex] by simp
  then show ?thesis using e toHex_examples by simp
qed

text \<open>
  Witness for C4 at (5, 255, 16).
\<close>

theorem hex_format_witness:
  "channel 5 \<and> channel 255 \<and> channel 16
   \<and> rgbToHex 5 255 16 = ''#05ff10'' \<and> length (rgbToHex 5 255 16) = 7"
  using hex_format [of 5 255 16] by (simp add: channel_def digitChar_def)

lemma random_value_examples:
  "random_value 0" "random_value (255 / 256)" "random_value (1 / 2)"
  "randomRGB 0 = 0" "randomRGB (255 / 256) = 255"
  by code_simp+

text \<open>
  Claim C8: for every value u that Math.random() can return (a binary64 value with
  0 <= u < 1), randomRGB gives an integer from 0 to 255; u = 0 gives 0 and u = 255/256
  gives 255.
\<close>

theorem random_channel_range:
  "(\<forall>u. random_value u \<longrightarrow> 0 \<le> randomRGB u \<and> randomRGB u \<le> 255)
   \<and> random_value 0 \<and> randomRGB 0 = 0
   \<and> random_value (255 / 256) \<and> randomRGB (255 / 256) = 255"
proof -
  have "\<forall>u. random_value u \<longrightarrow> 0 \<le> randomRGB u \<and> randomRGB u \<le> 255"
    using randomRGB_range unfolding random_value_def by blast
  then show ?thesis using random_value_examples by blast
qed

text \<open>
  Witness for C8 at u = 1/2.
\<close>

theorem random_channel_range_witness:
  "random_value (1 / 2) \<and> 0 \<le> randomRGB (1 / 2) \<and> randomRGB (1 / 2) \<le> 255"
  using random_channel_range random_value_examples(3) by blast

lemma randomRGB_channel: "random_value u \<Longrightarrow> channel (randomRGB u)"
  using randomRGB_range [of u] by (simp add: random_value_def channel_def)

text \<open>
  Claim C9: for channel values, reading the three pairs of rgbToHex(r, g, b) back in
  base 16 recovers (r, g, b); hence rgbToHex is injective on channel triples. Reading
  the three decimal numbers of the rgb string back gives the same triple, so in a response
  of the handler the hex field and the rgb field decode to one and the same colour, the
  triple that was drawn.
\<close>

theorem hex_roundtrip:
  assumes "channel r" "channel g" "channel b" "channel r'" "channel g'" "channel b'"
    and "random_value u1" "random_value u2" "random_value u3"
  shows "decodeHex (rgbToHex r g b) = Some (r, g, b)
       \<and> (rgbToHex r g b = rgbToHex r' g' b' \<longrightarrow> r = r' \<and> g = g' \<and> b = b')
       \<and> decodeRgb (rgbString r g b) = decodeHex (rgbToHex r g b)
       \<and> (\<exists>c. randomColor u1 u2 u3 = Some c
              \<and> decodeHex (hex c) = Some (randomRGB u1, randomRGB u2, randomRGB u3)
              \<and> rgb c = rgbString (randomRGB u1) (randomRGB u2) (randomRGB u3)
              \<and> decodeRgb (rgb c) = decodeHex (hex c))"
proof -
  have d: "decodeHex (rgbToHex x y z) = Some (x, y, z)"
    if "channel x" "channel y" "channel z" for x y z
    using that decodeHex_rgbToHex [of x y z] by (simp add: channel_def)
  have e: "decodeRgb (rgbString x y z) = Some (x, y, z)"
    if "channel x" "channel y" "channel z" for x y z
    using that decodeRgb_rgbString [of x y z] by (simp add: channel_def)
  have i: "r = r' \<and> g = g' \<and> b = b'" if "rgbToHex r g b = rgbToHex r' g' b'"
  proof -
    have "decodeHex (rgbToHex r g b) = decodeHex (rgbToHex r' g' b')"
      using that by (rule arg_cong)
    then have "Some (r, g, b) = Some (r', g', b')"
      by (simp only: d [OF assms(1-3)] d [OF assms(4-6)])
    then show ?thesis by simp
  qed
  let ?R = "randomRGB u1" and ?G = "randomRGB u2" and ?B = "randomRGB u3"
  have c: "channel ?R" "channel ?G" "channel ?B"
    using assms(7-9) by (simp_all add: randomRGB_channel)
  obtain h s l where "hslUnit ?R ?G ?B = Some (h, s, l)"
    using hslUnit_channel [OF c] by blast
  then obtain x where "rgbToHsl ?R ?G ?B = Some x"
    by (simp add: rgbToHsl_def hslScaled_def)
  then have "randomColor u1 u2 u3 = Some \<lparr>hex = rgbToHex ?R ?G ?B, rgb = rgbString ?R ?G ?B, hsl = x\<rparr>"
    by (simp add: randomColor_def Let_def)
  then have "\<exists>c. randomColor u1 u2 u3 = Some c
              \<and> decodeHex (hex c) = Some (?R, ?G, ?B) \<and> rgb c = rgbString ?R ?G ?B
              \<and> decodeRgb (rgb c) = decodeHex (hex c)"
    using d [OF c] e [OF c] by simp
  moreover have "decodeRgb (rgbString r g b) = decodeHex (rgbToHex r g b)"
    by (simp only: d [OF assms(1-3)] e [OF assms(1-3)])
  ultimately show ?thesis using d [OF assms(1-3)] i by blast
qed

text \<open>
  Witness for C9 at (163, 245, 66), compared with (0, 0, 0), and at the random values 1/2.
\<close>

theorem hex_roundtrip_witness:
  "channel 163 \<and> channel 245 \<and> channel 66 \<and> channel 0 \<and> random_value (1 / 2)
   \<and> decodeHex (rgbToHex 163 245 66) = Some (163, 245, 66)
   \<and> decodeRgb (rgbString 163 245 66) = decodeHex (rgbToHex 163 245 66)
   \<and> (\<exists>c. randomColor (1 / 2) (1 / 2) (1 / 2) = Some c
          \<and> decodeHex (hex c) = Some (randomRGB (1 / 2), randomRGB (1 / 2), randomRGB (1 / 2))
          \<and> rgb c = rgbString (randomRGB (1 / 2)) (randomRGB (1 / 2)) (randomRGB (1 / 2))
          \<and> decodeRgb (rgb c) = decodeHex (hex c))"
proof -
  have c: "channel 163" "channel 245" "channel 66" "channel 0" by (simp_all add: channel_def)
  show ?thesis
    using hex_roundtrip [OF c(1,2,3) c(4,4,4) random_value_examples(3) random_value_examples(3)
        random_value_examples(3)] c random_value_examples(3)
    by blast
qed

end
